theory Spec2Isabelle
  imports Main "HOL-Library.Word"
begin

section \<open>Data model of the throughput load balancer\<close>

text \<open>
  The model follows \<open>throughput_load_balancer.go\<close> call by call, for one thread of
  control: every method takes the state it reads and returns the state it leaves. The
  mutexes are left out; each is released before the method that took it returns, and no
  method takes the same one twice.

  Go's \<open>int\<close> is a 64-bit two's complement integer on the platforms the package is built
  for; arithmetic wraps around. Values are read with \<open>sint\<close> and compared with the signed
  orders \<open><s\<close> and \<open>\<le>s\<close>.
\<close>

type_synonym go_int = "64 word"

datatype error = errUnavailable | errMaxRequestsExceeded

datatype addrState = stateDown | stateUp

text \<open>
  \<open>grpc.Address\<close> has a string \<open>Addr\<close> and a \<open>Metadata\<close> of type \<open>interface{}\<close>.
  The dynamic values that occur are \<open>nil\<close>, an \<open>int\<close> (what \<open>Start\<close> stores) and values of
  other comparable types, which are never equal to an \<open>int\<close>.
\<close>

datatype metadata = MetaNil | MetaInt go_int | MetaOther string

record grpc_Address =
  Addr :: string
  Metadata :: metadata

record address =
  Address :: grpc_Address
  state :: addrState
  activeRequests :: go_int
  maxRequests :: go_int

subsection \<open>Operations of one slot\<close>

definition claim :: "address \<Rightarrow> error option \<times> address" where
  "claim a =
     (if maxRequests a \<le>s activeRequests a then (Some errMaxRequestsExceeded, a)
      else (None, a\<lparr>activeRequests := activeRequests a + 1\<rparr>))"

definition release :: "address \<Rightarrow> address" where
  "release a = a\<lparr>activeRequests := activeRequests a - 1\<rparr>"

definition goUp :: "address \<Rightarrow> address" where
  "goUp a = a\<lparr>state := stateUp\<rparr>"

definition goDown :: "address \<Rightarrow> address" where
  "goDown a = a\<lparr>state := stateDown\<rparr>"

definition isUp :: "address \<Rightarrow> bool" where
  "isUp a = (state a = stateUp)"

definition isDown :: "address \<Rightarrow> bool" where
  "isDown a = (state a = stateDown)"

definition capacity :: "address \<Rightarrow> go_int" where
  "capacity a = activeRequests a"

subsection \<open>The balancer\<close>

text \<open>
  A buffered channel: \<open>chan_cap\<close> is the capacity given to \<open>make\<close>, \<open>chan_buf\<close> the
  queue of elements sent and not yet received. A send on a channel whose buffer is full
  (always, for capacity 0) parks the sender until a receiver arrives.
\<close>

record 'a chan =
  chan_cap :: nat
  chan_buf :: "'a list"

definition chan_send :: "'a chan \<Rightarrow> 'a \<Rightarrow> 'a chan option" where
  "chan_send c v =
     (if length (chan_buf c) < chan_cap c then Some (c\<lparr>chan_buf := chan_buf c @ [v]\<rparr>)
      else None)"

text \<open>
  The slice \<open>addrs\<close> holds pointers: \<open>None\<close> is the nil pointer that \<open>make\<close> leaves in
  every position until \<open>Start\<close> runs. \<open>Start\<close> allocates one fresh object per position,
  so a pointer to a slot is identified with the slot's index in \<open>addrs\<close>.
\<close>

record ThroughputLoadBalancer =
  addrs :: "address option list"
  target :: string
  notify :: "grpc_Address list chan"
  lb_maxRequests :: go_int
  numAddrs :: go_int
  cleanupInterval :: go_int

text \<open>
  The outcome of a call: it returns, it panics (nil pointer dereference, index out of
  range, \<open>make\<close> with a negative size), or it is parked in a channel send, holding the
  message it is about to deliver.
\<close>

datatype 'a exec = Done 'a | Panic | SendBlocked 'a "grpc_Address list"

text \<open>
  An option is a function on the balancer; \<open>WithCleanupInterval\<close> is the only one the
  package builds. The limits of the allocator on the size given to \<open>make\<close> are not
  modelled, only the panic on a negative size.
\<close>

datatype ThroughputLoadBalancerOption = WithCleanupInterval go_int

fun apply_option :: "ThroughputLoadBalancerOption \<Rightarrow> ThroughputLoadBalancer \<Rightarrow> ThroughputLoadBalancer" where
  "apply_option (WithCleanupInterval d) lb = lb\<lparr>cleanupInterval := d\<rparr>"

text \<open>\<open>time.Minute\<close> in nanoseconds.\<close>

definition time_Minute :: go_int where
  "time_Minute = 60000000000"

definition NewThroughputLoadBalancer ::
  "go_int \<Rightarrow> go_int \<Rightarrow> ThroughputLoadBalancerOption list \<Rightarrow> ThroughputLoadBalancer exec" where
  "NewThroughputLoadBalancer maxReq n opts =
     (if n <s 0 then Panic
      else Done (fold apply_option opts
        \<lparr>addrs = replicate (unat n) None,
         target = [],
         notify = \<lparr>chan_cap = unat n, chan_buf = []\<rparr>,
         lb_maxRequests = maxReq,
         numAddrs = n,
         cleanupInterval = time_Minute\<rparr>))"

text \<open>
  The composite literal \<open>&address{Address: grpc.Address{Addr: lb.target, Metadata: i},
  maxRequests: lb.maxRequests}\<close>; the fields it leaves out get their zero values,
  \<open>stateDown\<close> and 0.
\<close>

definition new_address :: "string \<Rightarrow> nat \<Rightarrow> go_int \<Rightarrow> address" where
  "new_address tgt i m =
     \<lparr>Address = \<lparr>Addr = tgt, Metadata = MetaInt (of_nat i)\<rparr>,
      state = stateDown,
      activeRequests = 0,
      maxRequests = m\<rparr>"

text \<open>The loop of \<open>Start\<close>, from index \<open>i\<close> on.\<close>

function Start_loop :: "nat \<Rightarrow> ThroughputLoadBalancer \<Rightarrow> ThroughputLoadBalancer exec" where
  "Start_loop i lb =
     (if int i < sint (numAddrs lb) then
        (if i < length (addrs lb) then
           Start_loop (Suc i)
             (lb\<lparr>addrs := (addrs lb)[i := Some (new_address (target lb) i (lb_maxRequests lb))]\<rparr>)
         else Panic)
      else Done lb)"
  by pat_completeness auto
termination
  by (relation "measure (\<lambda>(i, lb). nat (sint (numAddrs lb)) - i)") auto

text \<open>The loop of \<open>sendNotify\<close>: reading \<open>a.Address\<close> through a nil pointer panics.\<close>

fun grpcAddrs :: "address option list \<Rightarrow> grpc_Address list exec" where
  "grpcAddrs [] = Done []"
| "grpcAddrs (None # as) = Panic"
| "grpcAddrs (Some a # as) =
     (case grpcAddrs as of Done gs \<Rightarrow> Done (Address a # gs) | Panic \<Rightarrow> Panic
      | SendBlocked gs m \<Rightarrow> Panic)"

definition sendNotify :: "ThroughputLoadBalancer \<Rightarrow> ThroughputLoadBalancer exec" where
  "sendNotify lb =
     (case grpcAddrs (addrs lb) of
        Done gs \<Rightarrow>
          (case chan_send (notify lb) gs of
             Some c \<Rightarrow> Done (lb\<lparr>notify := c\<rparr>)
           | None \<Rightarrow> SendBlocked lb gs)
      | Panic \<Rightarrow> Panic
      | SendBlocked gs m \<Rightarrow> Panic)"

definition Start :: "ThroughputLoadBalancer \<Rightarrow> string \<Rightarrow> ThroughputLoadBalancer exec" where
  "Start lb tgt =
     (case Start_loop 0 (lb\<lparr>target := tgt\<rparr>) of
        Done lb' \<Rightarrow> sendNotify lb'
      | Panic \<Rightarrow> Panic
      | SendBlocked lb' m \<Rightarrow> SendBlocked lb' m)"

text \<open>
  The function value returned by \<open>Up\<close>: the method value \<open>a.goDown\<close> bound to the slot
  at an index, or the function literal that does nothing.
\<close>

datatype down_handle = GoDownOf nat | NoOpDown

text \<open>The loop of \<open>Up\<close>, with \<open>i\<close> the index of the head of the remaining slice.\<close>

fun Up_loop :: "address option list \<Rightarrow> nat \<Rightarrow> grpc_Address \<Rightarrow> nat option exec" where
  "Up_loop [] i addr = Done None"
| "Up_loop (None # as) i addr = Panic"
| "Up_loop (Some a # as) i addr =
     (if Address a = addr then Done (Some i) else Up_loop as (Suc i) addr)"

text \<open>Applying a method to the slot a pointer refers to.\<close>

definition on_slot :: "nat \<Rightarrow> (address \<Rightarrow> address) \<Rightarrow> ThroughputLoadBalancer \<Rightarrow> ThroughputLoadBalancer exec" where
  "on_slot i f lb =
     (if i < length (addrs lb) then
        (case addrs lb ! i of
           None \<Rightarrow> Panic
         | Some a \<Rightarrow> Done (lb\<lparr>addrs := (addrs lb)[i := Some (f a)]\<rparr>))
      else Panic)"

definition Up :: "ThroughputLoadBalancer \<Rightarrow> grpc_Address \<Rightarrow> (down_handle \<times> ThroughputLoadBalancer) exec" where
  "Up lb addr =
     (case Up_loop (addrs lb) 0 addr of
        Done (Some i) \<Rightarrow>
          (case on_slot i goUp lb of
             Done lb' \<Rightarrow> Done (GoDownOf i, lb')
           | Panic \<Rightarrow> Panic
           | SendBlocked lb' m \<Rightarrow> Panic)
      | Done None \<Rightarrow> Done (NoOpDown, lb)
      | Panic \<Rightarrow> Panic
      | SendBlocked r m \<Rightarrow> Panic)"

fun call_down :: "down_handle \<Rightarrow> ThroughputLoadBalancer \<Rightarrow> ThroughputLoadBalancer exec" where
  "call_down (GoDownOf i) lb = on_slot i goDown lb"
| "call_down NoOpDown lb = Done lb"

text \<open>
  The scan of \<open>next\<close>: \<open>i\<close> is the index of the head of the remaining slice, \<open>addr\<close> the
  pointer chosen so far, \<open>lowestCapacity\<close> the load to beat.
\<close>

fun scan :: "address option list \<Rightarrow> nat \<Rightarrow> nat option \<Rightarrow> go_int \<Rightarrow> nat option exec" where
  "scan [] i addr lowestCapacity = Done addr"
| "scan (None # as) i addr lowestCapacity = Panic"
| "scan (Some a # as) i addr lowestCapacity =
     (if isDown a then scan as (Suc i) addr lowestCapacity
      else if capacity a <s lowestCapacity then scan as (Suc i) (Some i) (capacity a)
      else scan as (Suc i) addr lowestCapacity)"

text \<open>
  \<open>next\<close>. The error that \<open>claim\<close> returns is dropped by the source. With \<open>wait\<close> set and
  no slot chosen, the loop sleeps and scans again; run on its own, nothing changes the
  pool in between, and the call does not return (\<open>None\<close>).
\<close>

partial_function (option) lb_next ::
  "ThroughputLoadBalancer \<Rightarrow> bool \<Rightarrow> ((nat option \<times> error option) \<times> ThroughputLoadBalancer) exec option" where
  "lb_next lb wait =
     (case scan (addrs lb) 0 None (lb_maxRequests lb * 2) of
        Done (Some i) \<Rightarrow>
          (case on_slot i (\<lambda>a. snd (claim a)) lb of
             Done lb' \<Rightarrow> Some (Done ((Some i, None), lb'))
           | Panic \<Rightarrow> Some Panic
           | SendBlocked lb' m \<Rightarrow> Some Panic)
      | Done None \<Rightarrow>
          (if \<not> wait then Some (Done ((None, Some errUnavailable), lb))
           else lb_next lb wait)
      | Panic \<Rightarrow> Some Panic
      | SendBlocked r m \<Rightarrow> Some Panic)"

text \<open>
  The second result of \<open>Get\<close>: the method value \<open>addr.release\<close> bound to a slot, or the
  function literal that does nothing.
\<close>

datatype release_handle = ReleaseOf nat | NoOpRelease

fun call_release :: "release_handle \<Rightarrow> ThroughputLoadBalancer \<Rightarrow> ThroughputLoadBalancer exec" where
  "call_release (ReleaseOf i) lb = on_slot i release lb"
| "call_release NoOpRelease lb = Done lb"

definition zero_Address :: grpc_Address where
  "zero_Address = \<lparr>Addr = [], Metadata = MetaNil\<rparr>"

definition Get_result ::
  "((nat option \<times> error option) \<times> ThroughputLoadBalancer) exec \<Rightarrow>
   ((grpc_Address \<times> release_handle \<times> error option) \<times> ThroughputLoadBalancer) exec" where
  "Get_result r =
     (case r of
        Done ((addr, err), lb') \<Rightarrow>
          (case err of
             Some e \<Rightarrow> Done ((zero_Address, NoOpRelease, Some e), lb')
           | None \<Rightarrow>
               (case addr of
                  None \<Rightarrow> Panic
                | Some i \<Rightarrow>
                    (if i < length (addrs lb') then
                       (case addrs lb' ! i of
                          None \<Rightarrow> Panic
                        | Some a \<Rightarrow> Done ((Address a, ReleaseOf i, None), lb'))
                     else Panic)))
      | Panic \<Rightarrow> Panic
      | SendBlocked x m \<Rightarrow> Panic)"

definition Get ::
  "ThroughputLoadBalancer \<Rightarrow> bool \<Rightarrow>
   ((grpc_Address \<times> release_handle \<times> error option) \<times> ThroughputLoadBalancer) exec option" where
  "Get lb BlockingWait = map_option Get_result (lb_next lb BlockingWait)"

subsection \<open>Sequences of slot operations\<close>

text \<open>
  A single-threaded history of one slot: each step calls \<open>claim\<close> (whatever it returns)
  or \<open>release\<close>.
\<close>

datatype slot_op = Claim | Release

fun run_ops :: "slot_op list \<Rightarrow> address \<Rightarrow> address" where
  "run_ops [] a = a"
| "run_ops (Claim # ops) a = run_ops ops (snd (claim a))"
| "run_ops (Release # ops) a = run_ops ops (release a)"

text \<open>
  The protocol of the callers, in the words of the specification: every \<open>release\<close> is
  matched by an earlier successful \<open>claim\<close> that has not been released yet. \<open>held\<close>
  counts those.
\<close>

fun no_misuse :: "slot_op list \<Rightarrow> address \<Rightarrow> nat \<Rightarrow> bool" where
  "no_misuse [] a held = True"
| "no_misuse (Claim # ops) a held =
     no_misuse ops (snd (claim a)) (if fst (claim a) = None then Suc held else held)"
| "no_misuse (Release # ops) a held = (0 < held \<and> no_misuse ops (release a) (held - 1))"

subsection \<open>Started pools and example pools\<close>

text \<open>
  What \<open>Start\<close> establishes and no operation undoes: every position of \<open>addrs\<close> holds
  a slot, and every slot carries the ceiling of the balancer.
\<close>

definition started :: "ThroughputLoadBalancer \<Rightarrow> bool" where
  "started lb =
     list_all (\<lambda>x. case x of None \<Rightarrow> False | Some a \<Rightarrow> maxRequests a = lb_maxRequests lb)
       (addrs lb)"

text \<open>
  A pool of one slot for target \<open>t\<close> with ceiling \<open>m\<close>, as \<open>Start\<close> leaves it (the
  snapshot still in the channel), with the slot in a given state; and the pool of the
  specification's scenario: three slots up, ceiling 2, loads 2, 1 and 0.
\<close>

definition idle_slot :: "go_int \<Rightarrow> address" where
  "idle_slot m = (new_address ''t'' 0 m)\<lparr>state := stateUp\<rparr>"

definition lb_single :: "go_int \<Rightarrow> address \<Rightarrow> ThroughputLoadBalancer" where
  "lb_single m a =
     \<lparr>addrs = [Some a], target = ''t'', notify = \<lparr>chan_cap = 1, chan_buf = [[Address a]]\<rparr>,
      lb_maxRequests = m, numAddrs = 1, cleanupInterval = time_Minute\<rparr>"

definition lb_three :: ThroughputLoadBalancer where
  "lb_three =
     \<lparr>addrs = [Some ((new_address ''t'' 0 2)\<lparr>state := stateUp, activeRequests := 2\<rparr>),
               Some ((new_address ''t'' 1 2)\<lparr>state := stateUp, activeRequests := 1\<rparr>),
               Some ((new_address ''t'' 2 2)\<lparr>state := stateUp\<rparr>)],
      target = ''t'',
      notify = \<lparr>chan_cap = 3, chan_buf = []\<rparr>,
      lb_maxRequests = 2, numAddrs = 3, cleanupInterval = time_Minute\<rparr>"

section \<open>Signed 64-bit arithmetic\<close>

lemma sint_range: "- (2^63) \<le> sint (a::go_int) \<and> sint a < 2^63"
  using sint_lt[of a] sint_ge[of a] by simp

lemma sint_succ:
  assumes "(a::go_int) <s b"
  shows "sint (a + 1) = sint a + 1"
proof -
  have "sint a < sint b" using assms by (simp add: word_sless_alt)
  moreover have "sint b < 2^63" "- (2^63) \<le> sint a" using sint_range by blast+
  ultimately have r: "- (2^63) \<le> sint a + 1" "sint a + 1 < 2^63" by linarith+
  have "sint (a + 1) = signed_take_bit 63 (sint a + 1)"
    by (simp add: sint_word_ariths)
  also have "\<dots> = sint a + 1"
    using r by (intro signed_take_bit_int_eq_self) simp_all
  finally show ?thesis .
qed

lemma sint_pred:
  assumes "(b::go_int) <s a"
  shows "sint (a - 1) = sint a - 1"
proof -
  have "sint b < sint a" using assms by (simp add: word_sless_alt)
  moreover have "sint a < 2^63" "- (2^63) \<le> sint b" using sint_range by blast+
  ultimately have r: "- (2^63) \<le> sint a - 1" "sint a - 1 < 2^63" by linarith+
  have "sint (a - 1) = signed_take_bit 63 (sint a - 1)"
    by (simp add: sint_word_ariths)
  also have "\<dots> = sint a - 1"
    using r by (intro signed_take_bit_int_eq_self) simp_all
  finally show ?thesis .
qed

lemma sle_iff_not_sless: "((b::go_int) \<le>s a) = (\<not> a <s b)"
  by (auto simp: word_sle_eq word_sless_alt)

section \<open>Properties of one slot\<close>

text \<open>
  C3. \<open>claim\<close> returns no error exactly when \<open>activeRequests < maxRequests\<close> held at
  the call; it then adds exactly one to \<open>activeRequests\<close> (without wrap-around) and
  touches no other field. Otherwise it returns \<open>errMaxRequestsExceeded\<close> and the slot is
  unchanged.
\<close>

theorem claim_iff_below_ceiling:
  "(fst (claim a) = None \<longleftrightarrow> activeRequests a <s maxRequests a) \<and>
   (activeRequests a <s maxRequests a \<longrightarrow>
      snd (claim a) = a\<lparr>activeRequests := activeRequests a + 1\<rparr> \<and>
      sint (activeRequests (snd (claim a))) = sint (activeRequests a) + 1) \<and>
   (\<not> activeRequests a <s maxRequests a \<longrightarrow> claim a = (Some errMaxRequestsExceeded, a))"
  by (simp add: claim_def sle_iff_not_sless sint_succ)

theorem claim_iff_below_ceiling_witness:
  "(let a = \<lparr>Address = \<lparr>Addr = ''t'', Metadata = MetaInt 0\<rparr>, state = stateUp,
              activeRequests = 1, maxRequests = 2\<rparr>
    in activeRequests a <s maxRequests a \<and> fst (claim a) = None \<and>
       sint (activeRequests (snd (claim a))) = 2) \<and>
   (let b = \<lparr>Address = \<lparr>Addr = ''t'', Metadata = MetaInt 0\<rparr>, state = stateUp,
              activeRequests = 2, maxRequests = 2\<rparr>
    in \<not> activeRequests b <s maxRequests b \<and> claim b = (Some errMaxRequestsExceeded, b))"
  using claim_iff_below_ceiling [of "\<lparr>Address = \<lparr>Addr = ''t'', Metadata = MetaInt 0\<rparr>, state = stateUp,
              activeRequests = 1, maxRequests = 2\<rparr>"]
    claim_iff_below_ceiling [of "\<lparr>Address = \<lparr>Addr = ''t'', Metadata = MetaInt 0\<rparr>, state = stateUp,
              activeRequests = 2, maxRequests = 2\<rparr>"]
  by (simp add: Let_def word_sless_alt claim_def release_def)

text \<open>
  C6, as stated, fails: on a slot at its ceiling \<open>claim\<close> changes nothing and
  \<open>release\<close> still decrements, so the pair leaves \<open>activeRequests\<close> one lower
  (here 2 becomes 1).
\<close>

theorem claim_release_counterexample:
  "activeRequests (release (snd (claim
      \<lparr>Address = \<lparr>Addr = ''t'', Metadata = MetaInt 0\<rparr>, state = stateUp,
       activeRequests = 2, maxRequests = 2\<rparr>))) = 1 \<and>
   fst (claim \<lparr>Address = \<lparr>Addr = ''t'', Metadata = MetaInt 0\<rparr>, state = stateUp,
       activeRequests = 2, maxRequests = 2\<rparr>) = Some errMaxRequestsExceeded"
  by (simp add: claim_def release_def)

text \<open>
  C6, amended. For a slot below its ceiling, \<open>claim\<close> succeeds and an immediate
  \<open>release\<close> gives back the slot as it was before the \<open>claim\<close>, in particular the
  same \<open>activeRequests\<close>.
\<close>

theorem claim_release_roundtrip:
  "activeRequests a <s maxRequests a \<Longrightarrow>
     fst (claim a) = None \<and> release (snd (claim a)) = a"
  by (simp add: claim_def release_def sle_iff_not_sless)

theorem claim_release_roundtrip_witness:
  "(let a = \<lparr>Address = \<lparr>Addr = ''t'', Metadata = MetaInt 0\<rparr>, state = stateUp,
              activeRequests = 1, maxRequests = 2\<rparr>
    in activeRequests a <s maxRequests a \<and> release (snd (claim a)) = a)"
  using claim_release_roundtrip [of "\<lparr>Address = \<lparr>Addr = ''t'', Metadata = MetaInt 0\<rparr>, state = stateUp,
              activeRequests = 1, maxRequests = 2\<rparr>"]
  by (simp add: Let_def word_sless_alt claim_def release_def)

lemma run_ops_invariant:
  "no_misuse ops a held \<Longrightarrow> sint (activeRequests a) = int held \<Longrightarrow>
   int held \<le> sint (maxRequests a) \<Longrightarrow>
   0 \<le> sint (activeRequests (run_ops ops a)) \<and>
   sint (activeRequests (run_ops ops a)) \<le> sint (maxRequests (run_ops ops a)) \<and>
   maxRequests (run_ops ops a) = maxRequests a"
proof (induction ops arbitrary: a held)
  case Nil
  then show ?case by simp
next
  case (Cons op ops)
  show ?case
  proof (cases op)
    case Claim
    show ?thesis
    proof (cases "activeRequests a <s maxRequests a")
      case True
      have s: "sint (activeRequests a + 1) = int (Suc held)"
        using sint_succ[OF True] Cons.prems(2) by simp
      have "sint (activeRequests a) < sint (maxRequests a)"
        using True by (simp add: word_sless_alt)
      then have b: "int (Suc held) \<le> sint (maxRequests a)"
        using Cons.prems(2) by simp
      have c: "snd (claim a) = a\<lparr>activeRequests := activeRequests a + 1\<rparr>" "fst (claim a) = None"
        using True by (simp_all add: claim_def sle_iff_not_sless)
      have "no_misuse ops (a\<lparr>activeRequests := activeRequests a + 1\<rparr>) (Suc held)"
        using Cons.prems(1) Claim c by simp
      from Cons.IH[OF this] s b show ?thesis using Claim c by auto
    next
      case False
      have c: "snd (claim a) = a" "fst (claim a) \<noteq> None"
        using False by (simp_all add: claim_def sle_iff_not_sless)
      have "no_misuse ops a held" using Cons.prems(1) Claim c by simp
      from Cons.IH[OF this Cons.prems(2) Cons.prems(3)] show ?thesis using Claim c by auto
    qed
  next
    case Release
    have h: "0 < held" and n: "no_misuse ops (release a) (held - 1)"
      using Cons.prems(1) Release by simp_all
    have "sint (0::go_int) < sint (activeRequests a)" using h Cons.prems(2) by simp
    then have "(0::go_int) <s activeRequests a" by (simp add: word_sless_alt)
    from sint_pred[OF this] have s: "sint (activeRequests (release a)) = int (held - 1)"
      using h Cons.prems(2) by (simp add: release_def)
    have b: "int (held - 1) \<le> sint (maxRequests (release a))"
      using Cons.prems(3) by (simp add: release_def)
    from Cons.IH[OF n s b] show ?thesis using Release by (auto simp: release_def)
  qed
qed

text \<open>
  C7. From \<open>activeRequests = 0\<close> and \<open>maxRequests > 0\<close>, after any sequence of
  \<open>claim\<close> and \<open>release\<close> calls in which each \<open>release\<close> is matched by an earlier
  successful \<open>claim\<close>, \<open>0 \<le> activeRequests \<le> maxRequests\<close>.
\<close>

theorem claim_release_sequence_bounds:
  assumes "activeRequests a = 0" and "0 <s maxRequests a" and "no_misuse ops a 0"
  shows "0 \<le>s activeRequests (run_ops ops a) \<and>
         activeRequests (run_ops ops a) \<le>s maxRequests (run_ops ops a)"
proof -
  have "sint (activeRequests a) = int 0" using assms(1) by simp
  moreover have "int 0 \<le> sint (maxRequests a)" using assms(2) by (simp add: word_sless_alt)
  ultimately show ?thesis
    using run_ops_invariant[OF assms(3)] by (auto simp: word_sle_eq)
qed

theorem claim_release_sequence_bounds_witness:
  "(let a = \<lparr>Address = \<lparr>Addr = ''t'', Metadata = MetaInt 0\<rparr>, state = stateUp,
              activeRequests = 0, maxRequests = 1\<rparr>;
        ops = [Claim, Claim, Release, Claim]
    in activeRequests a = 0 \<and> 0 <s maxRequests a \<and> no_misuse ops a 0 \<and>
       activeRequests (run_ops ops a) = 1 \<and>
       0 \<le>s activeRequests (run_ops ops a) \<and>
       activeRequests (run_ops ops a) \<le>s maxRequests (run_ops ops a))"
  using claim_release_sequence_bounds [of "\<lparr>Address = \<lparr>Addr = ''t'', Metadata = MetaInt 0\<rparr>, state = stateUp,
              activeRequests = 0, maxRequests = 1\<rparr>" "[Claim, Claim, Release, Claim]"]
  by (simp add: Let_def word_sless_alt word_sle_eq claim_def release_def)

section \<open>The scan of \<open>next\<close>\<close>

lemma scan_result:
  "scan as i addr low = Done r \<Longrightarrow>
     (r = addr \<and> (\<forall>b. Some b \<in> set as \<and> \<not> isDown b \<longrightarrow> \<not> capacity b <s low)) \<or>
     (\<exists>pre a post. as = pre @ Some a # post \<and> r = Some (i + length pre) \<and>
        \<not> isDown a \<and> capacity a <s low \<and>
        (\<forall>b. Some b \<in> set pre \<and> \<not> isDown b \<longrightarrow> capacity a <s capacity b) \<and>
        (\<forall>b. Some b \<in> set post \<and> \<not> isDown b \<longrightarrow> capacity a \<le>s capacity b))"
proof (induction as i addr low rule: scan.induct)
  case (1 i addr low)
  then show ?case by simp
next
  case (2 as i addr low)
  then show ?case by simp
next
  case (3 a as i addr low)
  show ?case
  proof (cases "isDown a")
    case True
    with 3 have "scan as (Suc i) addr low = Done r" by simp
    from "3.IH"(1)[OF True this] show ?thesis
    proof
      assume "r = addr \<and> (\<forall>b. Some b \<in> set as \<and> \<not> isDown b \<longrightarrow> \<not> capacity b <s low)"
      then show ?thesis using True by auto
    next
      assume "\<exists>pre a' post. as = pre @ Some a' # post \<and> r = Some (Suc i + length pre) \<and>
        \<not> isDown a' \<and> capacity a' <s low \<and>
        (\<forall>b. Some b \<in> set pre \<and> \<not> isDown b \<longrightarrow> capacity a' <s capacity b) \<and>
        (\<forall>b. Some b \<in> set post \<and> \<not> isDown b \<longrightarrow> capacity a' \<le>s capacity b)"
      then obtain pre a' post where h: "as = pre @ Some a' # post" "r = Some (Suc i + length pre)"
        "\<not> isDown a'" "capacity a' <s low"
        "\<forall>b. Some b \<in> set pre \<and> \<not> isDown b \<longrightarrow> capacity a' <s capacity b"
        "\<forall>b. Some b \<in> set post \<and> \<not> isDown b \<longrightarrow> capacity a' \<le>s capacity b" by blast
      have "Some a # as = (Some a # pre) @ Some a' # post" using h(1) by simp
      moreover have "r = Some (i + length (Some a # pre))" using h(2) by simp
      moreover have "\<forall>b. Some b \<in> set (Some a # pre) \<and> \<not> isDown b \<longrightarrow> capacity a' <s capacity b"
        using h(5) True by auto
      ultimately show ?thesis using h(3,4,6) by blast
    qed
  next
    case up: False
    show ?thesis
    proof (cases "capacity a <s low")
      case True
      with 3 up have "scan as (Suc i) (Some i) (capacity a) = Done r" by simp
      from "3.IH"(2)[OF up True this] show ?thesis
      proof
        assume k: "r = Some i \<and> (\<forall>b. Some b \<in> set as \<and> \<not> isDown b \<longrightarrow> \<not> capacity b <s capacity a)"
        have "Some a # as = [] @ Some a # as" by simp
        moreover have "r = Some (i + length ([]::address option list))" using k by simp
        moreover have "\<forall>b. Some b \<in> set as \<and> \<not> isDown b \<longrightarrow> capacity a \<le>s capacity b"
          using k by (auto simp: word_sle_eq word_sless_alt)
        ultimately show ?thesis using up True by (metis empty_iff empty_set)
      next
        assume "\<exists>pre a' post. as = pre @ Some a' # post \<and> r = Some (Suc i + length pre) \<and>
          \<not> isDown a' \<and> capacity a' <s capacity a \<and>
          (\<forall>b. Some b \<in> set pre \<and> \<not> isDown b \<longrightarrow> capacity a' <s capacity b) \<and>
          (\<forall>b. Some b \<in> set post \<and> \<not> isDown b \<longrightarrow> capacity a' \<le>s capacity b)"
        then obtain pre a' post where h: "as = pre @ Some a' # post" "r = Some (Suc i + length pre)"
          "\<not> isDown a'" "capacity a' <s capacity a"
          "\<forall>b. Some b \<in> set pre \<and> \<not> isDown b \<longrightarrow> capacity a' <s capacity b"
          "\<forall>b. Some b \<in> set post \<and> \<not> isDown b \<longrightarrow> capacity a' \<le>s capacity b" by blast
        have "Some a # as = (Some a # pre) @ Some a' # post" using h(1) by simp
        moreover have "r = Some (i + length (Some a # pre))" using h(2) by simp
        moreover have "\<forall>b. Some b \<in> set (Some a # pre) \<and> \<not> isDown b \<longrightarrow> capacity a' <s capacity b"
          using h(4,5) by auto
        moreover have "capacity a' <s low"
          using h(4) True by (simp add: word_sless_alt)
        ultimately show ?thesis using h(3,6) by blast
      qed
    next
      case False
      with 3 up have "scan as (Suc i) addr low = Done r" by simp
      from "3.IH"(3)[OF up False this] show ?thesis
      proof
        assume "r = addr \<and> (\<forall>b. Some b \<in> set as \<and> \<not> isDown b \<longrightarrow> \<not> capacity b <s low)"
        then show ?thesis using False by auto
      next
        assume "\<exists>pre a' post. as = pre @ Some a' # post \<and> r = Some (Suc i + length pre) \<and>
          \<not> isDown a' \<and> capacity a' <s low \<and>
          (\<forall>b. Some b \<in> set pre \<and> \<not> isDown b \<longrightarrow> capacity a' <s capacity b) \<and>
          (\<forall>b. Some b \<in> set post \<and> \<not> isDown b \<longrightarrow> capacity a' \<le>s capacity b)"
        then obtain pre a' post where h: "as = pre @ Some a' # post" "r = Some (Suc i + length pre)"
          "\<not> isDown a'" "capacity a' <s low"
          "\<forall>b. Some b \<in> set pre \<and> \<not> isDown b \<longrightarrow> capacity a' <s capacity b"
          "\<forall>b. Some b \<in> set post \<and> \<not> isDown b \<longrightarrow> capacity a' \<le>s capacity b" by blast
        have "Some a # as = (Some a # pre) @ Some a' # post" using h(1) by simp
        moreover have "r = Some (i + length (Some a # pre))" using h(2) by simp
        moreover have "capacity a' <s capacity a"
          using h(4) False by (simp add: word_sless_alt)
        then have "\<forall>b. Some b \<in> set (Some a # pre) \<and> \<not> isDown b \<longrightarrow> capacity a' <s capacity b"
          using h(5) by auto
        ultimately show ?thesis using h(3,4,6) by blast
      qed
    qed
  qed
qed

lemma scan_total:
  "\<forall>x\<in>set as. x \<noteq> None \<Longrightarrow> \<exists>r. scan as i addr low = Done r"
  by (induction as i addr low rule: scan.induct) auto

lemma scan_not_blocked: "scan as i addr low \<noteq> SendBlocked r m"
  by (induction as i addr low rule: scan.induct) auto

lemma scan_keeps:
  "\<forall>x\<in>set as. \<exists>a. x = Some a \<and> (isDown a \<or> \<not> capacity a <s low) \<Longrightarrow>
   scan as i addr low = Done addr"
  by (induction as i addr low rule: scan.induct) auto

lemma not_isDown_iff: "(\<not> isDown a) = (state a = stateUp)"
  by (cases "state a") (simp_all add: isDown_def)

lemma sint_double:
  assumes "- (2^62) \<le> sint (m::go_int)" "sint m < 2^62"
  shows "sint (m * 2) = 2 * sint m"
proof -
  have "sint (m * 2) = signed_take_bit 63 (sint m * 2)"
    by (simp add: sint_word_ariths)
  also have "\<dots> = sint m * 2"
    using assms by (intro signed_take_bit_int_eq_self) simp_all
  finally show ?thesis by simp
qed

section \<open>Selection\<close>

lemma lb_next_cases:
  assumes "lb_next lb wait = Some y"
  shows "(scan (addrs lb) 0 None (lb_maxRequests lb * 2) = Done None \<and>
        y = Done ((None, Some errUnavailable), lb)) \<or>
     (\<exists>i. scan (addrs lb) 0 None (lb_maxRequests lb * 2) = Done (Some i) \<and>
        ((\<exists>lb'. on_slot i (\<lambda>a. snd (claim a)) lb = Done lb' \<and> y = Done ((Some i, None), lb')) \<or>
         y = Panic)) \<or>
     (scan (addrs lb) 0 None (lb_maxRequests lb * 2) = Panic \<and> y = Panic)"
proof -
  let ?Q = "\<lambda>lb (wait::bool) y.
     (scan (addrs lb) 0 None (lb_maxRequests lb * 2) = Done None \<and>
        y = Done ((None, Some errUnavailable), lb)) \<or>
     (\<exists>i. scan (addrs lb) 0 None (lb_maxRequests lb * 2) = Done (Some i) \<and>
        ((\<exists>lb'. on_slot i (\<lambda>a. snd (claim a)) lb = Done lb' \<and> y = Done ((Some i, None), lb')) \<or>
         y = Panic)) \<or>
     (scan (addrs lb) 0 None (lb_maxRequests lb * 2) = Panic \<and> y = Panic)"
  have "?Q lb wait y"
  proof (rule lb_next.raw_induct[where P = ?Q, rotated, OF assms])
    fix nxt lb wait y
    assume IH: "\<And>lb wait y. nxt lb wait = Some y \<Longrightarrow> ?Q lb wait y"
      and body: "(case scan (addrs lb) 0 None (lb_maxRequests lb * 2) of
          Done None \<Rightarrow>
            if \<not> wait then Some (Done ((None, Some errUnavailable), lb)) else nxt lb wait
        | Done (Some i) \<Rightarrow>
            (case on_slot i (\<lambda>a. snd (claim a)) lb of
               Done lb' \<Rightarrow> Some (Done ((Some i, None), lb'))
             | Panic \<Rightarrow> Some Panic
             | SendBlocked lb' m \<Rightarrow> Some Panic)
        | Panic \<Rightarrow> Some Panic
        | SendBlocked r m \<Rightarrow> Some Panic) = Some y"
    show "?Q lb wait y"
    proof (cases "scan (addrs lb) 0 None (lb_maxRequests lb * 2)")
      case (Done r)
      show ?thesis
      proof (cases r)
        case None
        show ?thesis
        proof (cases wait)
          case True
          with body Done None have "nxt lb wait = Some y" by simp
          from IH[OF this] show ?thesis .
        next
          case False
          with body Done None show ?thesis by auto
        qed
      next
        case (Some i)
        with body Done show ?thesis
          by (cases "on_slot i (\<lambda>a. snd (claim a)) lb") auto
      qed
    next
      case Panic
      with body show ?thesis by simp
    next
      case (SendBlocked r m)
      then show ?thesis using scan_not_blocked by blast
    qed
  qed
  then show ?thesis .
qed

lemma lb_next_nonblocking:
  "lb_next lb False =
     (case scan (addrs lb) 0 None (lb_maxRequests lb * 2) of
        Done (Some i) \<Rightarrow>
          (case on_slot i (\<lambda>a. snd (claim a)) lb of
             Done lb' \<Rightarrow> Some (Done ((Some i, None), lb'))
           | Panic \<Rightarrow> Some Panic
           | SendBlocked lb' m \<Rightarrow> Some Panic)
      | Done None \<Rightarrow> Some (Done ((None, Some errUnavailable), lb))
      | Panic \<Rightarrow> Some Panic
      | SendBlocked r m \<Rightarrow> Some Panic)"
  by (subst lb_next.simps) (simp split: exec.splits option.splits)

lemma lb_next_found:
  "scan (addrs lb) 0 None (lb_maxRequests lb * 2) = Done (Some i) \<Longrightarrow>
   lb_next lb wait =
     (case on_slot i (\<lambda>a. snd (claim a)) lb of
        Done lb' \<Rightarrow> Some (Done ((Some i, None), lb'))
      | Panic \<Rightarrow> Some Panic
      | SendBlocked lb' m \<Rightarrow> Some Panic)"
  by (subst lb_next.simps) simp

lemma on_slot_at:
  "addrs lb = pre @ Some a # post \<Longrightarrow>
   on_slot (length pre) f lb = Done (lb\<lparr>addrs := pre @ Some (f a) # post\<rparr>)"
  by (simp add: on_slot_def)

lemma claim_state: "state (snd (claim a)) = state a"
  by (simp add: claim_def)

lemma startedD:
  "started lb \<Longrightarrow> x \<in> set (addrs lb) \<Longrightarrow> \<exists>a. x = Some a \<and> maxRequests a = lb_maxRequests lb"
  by (auto simp: started_def list_all_iff split: option.splits)

lemmas eval_simps = lb_next_nonblocking Get_def Get_result_def isDown_def capacity_def
  word_sless_alt word_sle_eq on_slot_def claim_def

lemmas ex_simps = lb_single_def idle_slot_def new_address_def eval_simps

text \<open>
  C4. Whenever \<open>next\<close> returns a slot, blocking or not, that slot was initialised and
  \<open>Up\<close> (not \<open>Down\<close>) in the pool that was scanned, and it is still \<open>Up\<close> in the
  pool after the call.
\<close>

theorem next_returns_up_slot:
  assumes "lb_next lb wait = Some (Done ((Some i, err), lb'))"
  shows "i < length (addrs lb) \<and>
         (\<exists>a. addrs lb ! i = Some a \<and> state a = stateUp \<and> \<not> isDown a) \<and>
         (\<exists>a'. i < length (addrs lb') \<and> addrs lb' ! i = Some a' \<and> state a' = stateUp)"
proof -
  from lb_next_cases[OF assms]
  have s: "scan (addrs lb) 0 None (lb_maxRequests lb * 2) = Done (Some i)"
    and o: "on_slot i (\<lambda>a. snd (claim a)) lb = Done lb'"
    by auto
  from scan_result[OF s] obtain pre a post where
    d: "addrs lb = pre @ Some a # post" "i = length pre" "\<not> isDown a"
    by auto
  have "lb' = lb\<lparr>addrs := pre @ Some (snd (claim a)) # post\<rparr>"
    using on_slot_at[OF d(1), of "\<lambda>a. snd (claim a)"] o d(2) by simp
  then show ?thesis
    using d by (simp add: not_isDown_iff claim_state)
qed

theorem next_returns_up_slot_witness:
  "lb_next lb_three False = Some (Done ((Some 2, None),
      lb_three\<lparr>addrs := (addrs lb_three)[2 :=
        Some ((new_address ''t'' 2 2)\<lparr>state := stateUp, activeRequests := 1\<rparr>)]\<rparr>)) \<and>
   (2::nat) < length (addrs lb_three) \<and>
   (\<exists>a. addrs lb_three ! 2 = Some a \<and> state a = stateUp \<and> \<not> isDown a)"
proof -
  have h: "lb_next lb_three False = Some (Done ((Some 2, None),
      lb_three\<lparr>addrs := (addrs lb_three)[2 :=
        Some ((new_address ''t'' 2 2)\<lparr>state := stateUp, activeRequests := 1\<rparr>)]\<rparr>))"
    by (simp add: lb_three_def new_address_def eval_simps)
  from next_returns_up_slot [OF h] h show ?thesis by blast
qed

lemma Get_nonblocking_returns:
  assumes "\<forall>x\<in>set (addrs lb). x \<noteq> None"
  shows "\<exists>r. Get lb False = Some (Done r)"
proof -
  from scan_total[OF assms] obtain r where
    s: "scan (addrs lb) 0 None (lb_maxRequests lb * 2) = Done r" by blast
  show ?thesis
  proof (cases r)
    case None
    with s show ?thesis by (simp add: Get_def lb_next_nonblocking Get_result_def)
  next
    case (Some i)
    with scan_result[OF s] obtain pre a post where
      d: "addrs lb = pre @ Some a # post" "i = length pre" by auto
    from on_slot_at[OF d(1), of "\<lambda>a. snd (claim a)"] s Some d show ?thesis
      by (simp add: Get_def lb_next_nonblocking Get_result_def)
  qed
qed

text \<open>
  C5. Neither \<open>next\<close> nor \<open>Get\<close> ever returns \<open>errMaxRequestsExceeded\<close>: the error
  they return is \<open>nil\<close> or \<open>errUnavailable\<close>, also when \<open>claim\<close> on the chosen slot
  fails (its result is dropped). On a pool whose slots are all initialised the
  non-blocking \<open>Get\<close> does return.
\<close>

theorem Get_never_capacity_exceeded:
  "(lb_next lb wait = Some (Done ((addr, err), lb')) \<longrightarrow>
      err = None \<or> err = Some errUnavailable) \<and>
   (Get lb wait = Some (Done ((ga, rel, gerr), lb'')) \<longrightarrow>
      gerr = None \<or> gerr = Some errUnavailable) \<and>
   ((\<forall>x\<in>set (addrs lb). x \<noteq> None) \<longrightarrow> (\<exists>r. Get lb False = Some (Done r)))"
proof -
  have n: "err = None \<or> err = Some errUnavailable"
    if "lb_next lb wait = Some (Done ((addr, err), lb'))" for addr err lb'
    using lb_next_cases[OF that] by auto
  have "gerr = None \<or> gerr = Some errUnavailable"
    if g: "Get lb wait = Some (Done ((ga, rel, gerr), lb''))"
  proof -
    from g obtain r where r: "lb_next lb wait = Some r"
      and gr: "Get_result r = Done ((ga, rel, gerr), lb'')"
      by (auto simp: Get_def)
    from gr obtain addr err l where "r = Done ((addr, err), l)"
      by (cases r) (auto simp: Get_result_def)
    with n r gr show ?thesis
      by (auto simp: Get_result_def split: option.splits if_splits)
  qed
  with n Get_nonblocking_returns show ?thesis by blast
qed

text \<open>
  One slot at its ceiling 1: \<open>claim\<close> fails on it, and \<open>next\<close> and \<open>Get\<close> return it
  with a \<open>nil\<close> error.
\<close>

theorem Get_never_capacity_exceeded_witness:
  "fst (claim ((idle_slot 1)\<lparr>activeRequests := 1\<rparr>)) = Some errMaxRequestsExceeded \<and>
   list_all (\<lambda>x. x \<noteq> None) (addrs (lb_single 1 ((idle_slot 1)\<lparr>activeRequests := 1\<rparr>))) \<and>
   lb_next (lb_single 1 ((idle_slot 1)\<lparr>activeRequests := 1\<rparr>)) False =
     Some (Done ((Some 0, None), lb_single 1 ((idle_slot 1)\<lparr>activeRequests := 1\<rparr>))) \<and>
   Get (lb_single 1 ((idle_slot 1)\<lparr>activeRequests := 1\<rparr>)) False =
     Some (Done ((\<lparr>Addr = ''t'', Metadata = MetaInt 0\<rparr>, ReleaseOf 0, None),
                 lb_single 1 ((idle_slot 1)\<lparr>activeRequests := 1\<rparr>))) \<and>
   (\<exists>r. Get (lb_single 1 ((idle_slot 1)\<lparr>activeRequests := 1\<rparr>)) False = Some (Done r))"
proof -
  have h: "lb_next (lb_single 1 ((idle_slot 1)\<lparr>activeRequests := 1\<rparr>)) False =
     Some (Done ((Some 0, None), lb_single 1 ((idle_slot 1)\<lparr>activeRequests := 1\<rparr>)))"
    "Get (lb_single 1 ((idle_slot 1)\<lparr>activeRequests := 1\<rparr>)) False =
     Some (Done ((\<lparr>Addr = ''t'', Metadata = MetaInt 0\<rparr>, ReleaseOf 0, None),
                 lb_single 1 ((idle_slot 1)\<lparr>activeRequests := 1\<rparr>)))"
    "\<forall>x\<in>set (addrs (lb_single 1 ((idle_slot 1)\<lparr>activeRequests := 1\<rparr>))). x \<noteq> None"
    "fst (claim ((idle_slot 1)\<lparr>activeRequests := 1\<rparr>)) = Some errMaxRequestsExceeded"
    by (simp_all add: ex_simps)
  from Get_never_capacity_exceeded
    [of "lb_single 1 ((idle_slot 1)\<lparr>activeRequests := 1\<rparr>)" False "Some 0" None
        "lb_single 1 ((idle_slot 1)\<lparr>activeRequests := 1\<rparr>)"
        "\<lparr>Addr = ''t'', Metadata = MetaInt 0\<rparr>" "ReleaseOf 0" None
        "lb_single 1 ((idle_slot 1)\<lparr>activeRequests := 1\<rparr>)"] h
  show ?thesis by (simp add: list_all_iff)
qed

text \<open>
  C1, at a pool whose only slot is \<open>Up\<close> and at its ceiling (load 2, ceiling 2): the
  scan compares the load with the sentinel \<open>maxRequests * 2 = 4\<close>, chooses the slot,
  \<open>claim\<close> fails and its error is dropped; \<open>Get\<close> returns the slot with a \<open>nil\<close> error
  and a release handle, not \<open>errUnavailable\<close>. No counter is incremented.
\<close>

theorem next_at_ceiling_returns_slot:
  "maxRequests ((idle_slot 2)\<lparr>activeRequests := 2\<rparr>) \<le>s activeRequests ((idle_slot 2)\<lparr>activeRequests := 2\<rparr>) \<and>
   Get (lb_single 2 ((idle_slot 2)\<lparr>activeRequests := 2\<rparr>)) False =
     Some (Done ((\<lparr>Addr = ''t'', Metadata = MetaInt 0\<rparr>, ReleaseOf 0, None),
                 lb_single 2 ((idle_slot 2)\<lparr>activeRequests := 2\<rparr>)))"
  by (simp add: ex_simps)

text \<open>
  The other half of C1 holds: when every slot is \<open>Down\<close>, the non-blocking \<open>Get\<close>
  fails with \<open>errUnavailable\<close> and leaves the pool as it was.
\<close>

lemma all_down_unavailable:
  assumes "list_all (\<lambda>x. case x of None \<Rightarrow> False | Some a \<Rightarrow> state a = stateDown) (addrs lb)"
  shows "Get lb False = Some (Done ((zero_Address, NoOpRelease, Some errUnavailable), lb))"
proof -
  have "\<forall>x\<in>set (addrs lb). \<exists>a. x = Some a \<and> (isDown a \<or> \<not> capacity a <s lb_maxRequests lb * 2)"
    using assms by (auto simp: list_all_iff isDown_def split: option.splits)
  from scan_keeps[OF this] show ?thesis
    by (simp add: Get_def lb_next_nonblocking Get_result_def)
qed

text \<open>
  C2, as stated, fails where the sentinel wraps around: with \<open>maxRequests = 2^62\<close> the
  product \<open>maxRequests * 2\<close> is \<open>-2^63\<close> in 64-bit arithmetic, no load is below it, and
  a pool whose only slot is \<open>Up\<close> and idle yields \<open>errUnavailable\<close>.
\<close>

theorem next_sentinel_overflow_counterexample:
  "started (lb_single 4611686018427387904 (idle_slot 4611686018427387904)) \<and>
   state (idle_slot 4611686018427387904) = stateUp \<and>
   activeRequests (idle_slot 4611686018427387904) <s maxRequests (idle_slot 4611686018427387904) \<and>
   lb_next (lb_single 4611686018427387904 (idle_slot 4611686018427387904)) False =
     Some (Done ((None, Some errUnavailable), lb_single 4611686018427387904 (idle_slot 4611686018427387904)))"
  by (simp add: ex_simps started_def)

text \<open>
  C2, amended. In a started pool whose ceiling satisfies \<open>0 \<le> maxRequests < 2^62\<close> and
  that holds at least one \<open>Up\<close> slot below its ceiling, \<open>next\<close> (blocking or not)
  returns a slot that is \<open>Up\<close> and below its ceiling, whose load is lowest among such
  slots and strictly lower than that of every such slot at a smaller index; the slot is
  claimed (its load goes up by one) and nothing else changes.
\<close>

theorem next_picks_least_loaded:
  assumes st: "started lb"
    and lo: "0 \<le>s lb_maxRequests lb" and hi: "lb_maxRequests lb <s 2 ^ 62"
    and j: "j < length (addrs lb)" "addrs lb ! j = Some b"
    and b: "state b = stateUp" "activeRequests b <s maxRequests b"
  shows "\<exists>i a.
      lb_next lb wait = Some (Done ((Some i, None),
         lb\<lparr>addrs := (addrs lb)[i := Some (a\<lparr>activeRequests := activeRequests a + 1\<rparr>)]\<rparr>)) \<and>
      i < length (addrs lb) \<and> addrs lb ! i = Some a \<and>
      state a = stateUp \<and> activeRequests a <s maxRequests a \<and>
      (\<forall>k c. k < length (addrs lb) \<and> addrs lb ! k = Some c \<and> state c = stateUp \<and>
             activeRequests c <s maxRequests c \<longrightarrow>
             activeRequests a \<le>s activeRequests c \<and> (k < i \<longrightarrow> activeRequests a <s activeRequests c))"
proof -
  let ?low = "lb_maxRequests lb * 2"
  have m: "0 \<le> sint (lb_maxRequests lb)" "sint (lb_maxRequests lb) < 2 ^ 62"
    using lo hi by (simp_all add: word_sle_eq word_sless_alt)
  then have low: "sint ?low = 2 * sint (lb_maxRequests lb)"
    by (intro sint_double) simp_all
  have bin: "Some b \<in> set (addrs lb)" using j by (metis nth_mem)
  have bmax: "maxRequests b = lb_maxRequests lb" using startedD[OF st bin] by simp
  have bl: "sint (activeRequests b) < sint (lb_maxRequests lb)"
    using b(2) bmax by (simp add: word_sless_alt)
  have "\<forall>x\<in>set (addrs lb). x \<noteq> None" using startedD[OF st] by auto
  from scan_total[OF this] obtain r where s: "scan (addrs lb) 0 None ?low = Done r" by blast
  have "capacity b <s ?low" "\<not> isDown b"
    using bl low m b(1) by (simp_all add: word_sless_alt capacity_def isDown_def)
  with scan_result[OF s] bin obtain pre a post where
    d: "addrs lb = pre @ Some a # post" "r = Some (length pre)" "\<not> isDown a"
       "\<forall>c. Some c \<in> set pre \<and> \<not> isDown c \<longrightarrow> capacity a <s capacity c"
       "\<forall>c. Some c \<in> set post \<and> \<not> isDown c \<longrightarrow> capacity a \<le>s capacity c"
    by auto
  have amax: "maxRequests a = lb_maxRequests lb"
    using startedD[OF st, of "Some a"] d(1) by simp
  have le: "sint (activeRequests a) \<le> sint (activeRequests c)"
       if "Some c \<in> set (addrs lb)" "state c = stateUp" for c
  proof -
    from that(1) d(1) have "Some c \<in> set pre \<or> c = a \<or> Some c \<in> set post" by auto
    then show ?thesis
      using d(4,5) that(2) by (auto simp: not_isDown_iff capacity_def word_sless_alt word_sle_eq)
  qed
  have under: "activeRequests a <s maxRequests a"
    using le[OF bin b(1)] bl amax by (simp add: word_sless_alt)
  then have cl: "snd (claim a) = a\<lparr>activeRequests := activeRequests a + 1\<rparr>"
    by (simp add: claim_def sle_iff_not_sless)
  have nx: "lb_next lb wait = Some (Done ((Some (length pre), None),
         lb\<lparr>addrs := (addrs lb)[length pre := Some (a\<lparr>activeRequests := activeRequests a + 1\<rparr>)]\<rparr>))"
    using lb_next_found[of lb "length pre" wait] s d(2) on_slot_at[OF d(1), of "\<lambda>a. snd (claim a)"] cl
    by (simp add: d(1))
  have all: "activeRequests a \<le>s activeRequests c \<and> (k < length pre \<longrightarrow> activeRequests a <s activeRequests c)"
    if k: "k < length (addrs lb)" "addrs lb ! k = Some c" "state c = stateUp" for k c
  proof -
    have "Some c \<in> set (addrs lb)" using k(1,2) by (metis nth_mem)
    from le[OF this k(3)] have 1: "activeRequests a \<le>s activeRequests c" by (simp add: word_sle_eq)
    have 2: "activeRequests a <s activeRequests c" if "k < length pre"
    proof -
      have "pre ! k = Some c" using k(2) that d(1) by (simp add: nth_append)
      then have "Some c \<in> set pre" using that by (metis nth_mem)
      then show ?thesis using d(4) k(3) by (simp add: not_isDown_iff capacity_def)
    qed
    from 1 2 show ?thesis by blast
  qed
  have "length pre < length (addrs lb)" "addrs lb ! length pre = Some a" using d(1) by simp_all
  moreover have "state a = stateUp" using d(3) by (simp add: not_isDown_iff)
  ultimately show ?thesis using nx under all by blast
qed

theorem next_picks_least_loaded_witness:
  "started lb_three \<and> 0 \<le>s lb_maxRequests lb_three \<and> lb_maxRequests lb_three <s 2 ^ 62 \<and>
   (1::nat) < length (addrs lb_three) \<and>
   addrs lb_three ! 1 = Some \<lparr>Address = \<lparr>Addr = ''t'', Metadata = MetaInt 1\<rparr>, state = stateUp,
                 activeRequests = 1, maxRequests = 2\<rparr> \<and>
   (\<exists>i a. lb_next lb_three False = Some (Done ((Some i, None),
         lb_three\<lparr>addrs := (addrs lb_three)[i := Some (a\<lparr>activeRequests := activeRequests a + 1\<rparr>)]\<rparr>)) \<and>
      i < length (addrs lb_three) \<and> addrs lb_three ! i = Some a \<and>
      state a = stateUp \<and> activeRequests a <s maxRequests a \<and>
      (\<forall>k c. k < length (addrs lb_three) \<and> addrs lb_three ! k = Some c \<and> state c = stateUp \<and>
             activeRequests c <s maxRequests c \<longrightarrow>
             activeRequests a \<le>s activeRequests c \<and> (k < i \<longrightarrow> activeRequests a <s activeRequests c)))"
proof -
  have h: "started lb_three" "0 \<le>s lb_maxRequests lb_three" "lb_maxRequests lb_three <s 2 ^ 62"
    "(1::nat) < length (addrs lb_three)"
    "addrs lb_three ! 1 = Some \<lparr>Address = \<lparr>Addr = ''t'', Metadata = MetaInt 1\<rparr>, state = stateUp,
                 activeRequests = 1, maxRequests = 2\<rparr>"
    by (simp_all add: lb_three_def new_address_def started_def word_sle_eq word_sless_alt)
  show ?thesis
    using h next_picks_least_loaded [OF h, of False] by (simp add: word_sless_alt)
qed

text \<open>
  The scenario of the specification: loads 2, 1 and 0 under ceiling 2 give slot 2.
\<close>

lemma lb_three_selection:
  "lb_next lb_three False = Some (Done ((Some 2, None),
   lb_three\<lparr>addrs := (addrs lb_three)[2 := Some \<lparr>Address = \<lparr>Addr = ''t'', Metadata = MetaInt 2\<rparr>, state = stateUp,
                 activeRequests = 1, maxRequests = 2\<rparr>]\<rparr>))"
  by (simp add: lb_three_def new_address_def eval_simps)

text \<open>
  C10, as stated, fails where the sentinel wraps around: with
  \<open>maxRequests = -(2^62 + 1)\<close> the product \<open>maxRequests * 2\<close> is \<open>2^63 - 2\<close> in 64-bit
  arithmetic, and an \<open>Up\<close>, idle slot is returned with a \<open>nil\<close> error.
\<close>

theorem nonpositive_ceiling_counterexample:
  "- 4611686018427387905 \<le>s (0::go_int) \<and>
   Get (lb_single (- 4611686018427387905) (idle_slot (- 4611686018427387905))) False =
     Some (Done ((\<lparr>Addr = ''t'', Metadata = MetaInt 0\<rparr>, ReleaseOf 0, None),
                 lb_single (- 4611686018427387905) (idle_slot (- 4611686018427387905))))"
  by (simp add: ex_simps)

text \<open>
  C10, amended. For a balancer with \<open>-2^62 \<le> maxRequests \<le> 0\<close> and a pool whose slots
  are all initialised with loads \<open>\<ge> 0\<close>, the non-blocking \<open>Get\<close> fails with
  \<open>errUnavailable\<close> and changes nothing, whatever the health of the slots.
\<close>

theorem nonpositive_ceiling_unavailable:
  assumes "- (2 ^ 62) \<le>s lb_maxRequests lb" and "lb_maxRequests lb \<le>s 0"
    and "list_all (\<lambda>x. case x of None \<Rightarrow> False | Some a \<Rightarrow> 0 \<le>s activeRequests a) (addrs lb)"
  shows "Get lb False = Some (Done ((zero_Address, NoOpRelease, Some errUnavailable), lb))"
proof -
  have m: "- (2 ^ 62) \<le> sint (lb_maxRequests lb)" "sint (lb_maxRequests lb) \<le> 0"
    using assms(1,2) by (simp_all add: word_sle_eq)
  then have "sint (lb_maxRequests lb * 2) = 2 * sint (lb_maxRequests lb)"
    by (intro sint_double) simp_all
  with m have low: "sint (lb_maxRequests lb * 2) \<le> 0" by simp
  have "\<forall>x\<in>set (addrs lb). \<exists>a. x = Some a \<and> (isDown a \<or> \<not> capacity a <s lb_maxRequests lb * 2)"
    using assms(3) low
    by (auto simp: list_all_iff capacity_def word_sle_eq word_sless_alt split: option.splits)
  from scan_keeps[OF this] show ?thesis
    by (simp add: Get_def lb_next_nonblocking Get_result_def)
qed

theorem nonpositive_ceiling_unavailable_witness:
  "- (2 ^ 62) \<le>s lb_maxRequests (lb_single 0 (idle_slot 0)) \<and>
   lb_maxRequests (lb_single 0 (idle_slot 0)) \<le>s 0 \<and>
   list_all (\<lambda>x. case x of None \<Rightarrow> False | Some a \<Rightarrow> 0 \<le>s activeRequests a)
     (addrs (lb_single 0 (idle_slot 0))) \<and>
   state (idle_slot 0) = stateUp \<and>
   Get (lb_single 0 (idle_slot 0)) False =
     Some (Done ((zero_Address, NoOpRelease, Some errUnavailable), lb_single 0 (idle_slot 0)))"
proof -
  have h: "- (2 ^ 62) \<le>s lb_maxRequests (lb_single 0 (idle_slot 0))"
    "lb_maxRequests (lb_single 0 (idle_slot 0)) \<le>s 0"
    "list_all (\<lambda>x. case x of None \<Rightarrow> False | Some a \<Rightarrow> 0 \<le>s activeRequests a)
       (addrs (lb_single 0 (idle_slot 0)))"
    by (simp_all add: lb_single_def idle_slot_def new_address_def word_sle_eq)
  show ?thesis
    using h nonpositive_ceiling_unavailable [OF h] by (simp add: idle_slot_def new_address_def)
qed

section \<open>\<open>Start\<close> and \<open>Up\<close>\<close>

declare Start_loop.simps [simp del]

lemma Start_loop_fills:
  assumes "sint (numAddrs lb) = int n" "length (addrs lb) = n" "i \<le> n"
  shows "Start_loop i lb =
     Done (lb\<lparr>addrs := take i (addrs lb) @
        map (\<lambda>k. Some (new_address (target lb) k (lb_maxRequests lb))) [i..<n]\<rparr>)"
  using assms
proof (induction "n - i" arbitrary: i lb)
  case 0
  then have "i = n" by simp
  with 0 show ?case by (subst Start_loop.simps) simp
next
  case (Suc d)
  then have lt: "i < n" by simp
  let ?v = "Some (new_address (target lb) i (lb_maxRequests lb))"
  let ?lb = "lb\<lparr>addrs := (addrs lb)[i := ?v]\<rparr>"
  have step: "Start_loop i lb = Start_loop (Suc i) ?lb"
    using lt Suc.prems by (subst Start_loop.simps) simp
  have "d = n - Suc i" using Suc.hyps(2) by simp
  from Suc.hyps(1)[OF this, of ?lb] Suc.prems lt
  have ih: "Start_loop (Suc i) ?lb =
     Done (?lb\<lparr>addrs := take (Suc i) (addrs ?lb) @
        map (\<lambda>k. Some (new_address (target lb) k (lb_maxRequests lb))) [Suc i..<n]\<rparr>)"
    by simp
  have tk: "take (Suc i) (addrs ?lb) = take i (addrs lb) @ [?v]"
    using lt Suc.prems(2) by (simp add: take_Suc_conv_app_nth)
  have up: "[i..<n] = i # [Suc i..<n]" using lt by (simp add: upt_conv_Cons)
  show ?case
    unfolding step ih tk up by simp
qed

lemma fold_apply_option:
  "\<exists>d. fold apply_option opts lb = lb\<lparr>cleanupInterval := d\<rparr>"
proof (induction opts arbitrary: lb)
  case Nil
  have "lb = lb\<lparr>cleanupInterval := cleanupInterval lb\<rparr>" by simp
  then show ?case by (metis fold_simps(1))
next
  case (Cons x xs)
  obtain d where x: "x = WithCleanupInterval d" by (cases x)
  from Cons[of "lb\<lparr>cleanupInterval := d\<rparr>"] show ?case by (auto simp: x)
qed

lemma sint_nonneg_unat:
  assumes "\<not> (n::go_int) <s 0"
  shows "sint n = int (unat n)"
proof -
  have nn: "0 \<le> sint n" using assms by (simp add: word_sless_alt)
  have lt: "sint n < 2 ^ 64" using sint_range[of n] by simp
  have "uint n = uint (word_of_int (sint n) :: go_int)" by simp
  also have "\<dots> = sint n mod 2 ^ 64" by (simp only: uint_word_of_int) simp
  also have "\<dots> = sint n" using nn lt by simp
  finally show ?thesis by simp
qed

lemma grpcAddrs_map_Some: "grpcAddrs (map (\<lambda>k. Some (f k)) xs) = Done (map (\<lambda>k. Address (f k)) xs)"
  by (induction xs) simp_all

lemma Start_fresh:
  assumes "NewThroughputLoadBalancer m n opts = Done lb"
  shows "Start lb tgt =
     (let slots = map (\<lambda>k. new_address tgt k m) [0..<unat n];
          lb' = lb\<lparr>target := tgt, addrs := map Some slots\<rparr>
      in if n = 0 then SendBlocked lb' (map Address slots)
         else Done (lb'\<lparr>notify := \<lparr>chan_cap = unat n, chan_buf = [map Address slots]\<rparr>\<rparr>))"
proof -
  from assms have nn: "\<not> n <s 0" by (auto simp: NewThroughputLoadBalancer_def split: if_splits)
  let ?base = "\<lparr>addrs = replicate (unat n) None, target = [],
         notify = \<lparr>chan_cap = unat n, chan_buf = []\<rparr>, lb_maxRequests = m,
         numAddrs = n, cleanupInterval = time_Minute\<rparr>"
  from assms nn have "lb = fold apply_option opts ?base"
    by (simp add: NewThroughputLoadBalancer_def)
  with fold_apply_option[of opts ?base] obtain d where lb: "lb = ?base\<lparr>cleanupInterval := d\<rparr>"
    by auto
  let ?lb0 = "lb\<lparr>target := tgt\<rparr>"
  have "sint (numAddrs ?lb0) = int (unat n)" "length (addrs ?lb0) = unat n"
    using sint_nonneg_unat[OF nn] by (simp_all add: lb)
  from Start_loop_fills[OF this, of 0]
  have loop: "Start_loop 0 ?lb0 =
     Done (?lb0\<lparr>addrs := map (\<lambda>k. Some (new_address tgt k m)) [0..<unat n]\<rparr>)"
    by (simp add: lb)
  have z: "(unat n = 0) = (n = 0)" by (simp add: unat_eq_0)
  show ?thesis
    unfolding Start_def loop
    by (simp add: sendNotify_def Let_def grpcAddrs_map_Some chan_send_def lb comp_def z)
qed

lemma New_zero:
  "NewThroughputLoadBalancer 2 0 [] =
     Done \<lparr>addrs = [], target = [], notify = \<lparr>chan_cap = 0, chan_buf = []\<rparr>,
           lb_maxRequests = 2, numAddrs = 0, cleanupInterval = time_Minute\<rparr>"
  by (simp add: NewThroughputLoadBalancer_def word_sless_alt)

text \<open>
  C8, as stated, fails for pool size 0, which the constructor accepts: the channel is
  then unbuffered, and \<open>Start\<close> does not return. It is parked in the send of the empty
  slice, and the channel holds no element.
\<close>

theorem Start_empty_pool_counterexample:
  "NewThroughputLoadBalancer 2 0 [] =
     Done \<lparr>addrs = [], target = [], notify = \<lparr>chan_cap = 0, chan_buf = []\<rparr>,
           lb_maxRequests = 2, numAddrs = 0, cleanupInterval = time_Minute\<rparr> \<and>
   Start \<lparr>addrs = [], target = [], notify = \<lparr>chan_cap = 0, chan_buf = []\<rparr>,
           lb_maxRequests = 2, numAddrs = 0, cleanupInterval = time_Minute\<rparr> ''t'' =
     SendBlocked \<lparr>addrs = [], target = ''t'', notify = \<lparr>chan_cap = 0, chan_buf = []\<rparr>,
           lb_maxRequests = 2, numAddrs = 0, cleanupInterval = time_Minute\<rparr> []"
proof -
  from Start_fresh [OF New_zero, of "''t''"]
  have "Start \<lparr>addrs = [], target = [], notify = \<lparr>chan_cap = 0, chan_buf = []\<rparr>,
           lb_maxRequests = 2, numAddrs = 0, cleanupInterval = time_Minute\<rparr> ''t'' =
     SendBlocked \<lparr>addrs = [], target = ''t'', notify = \<lparr>chan_cap = 0, chan_buf = []\<rparr>,
           lb_maxRequests = 2, numAddrs = 0, cleanupInterval = time_Minute\<rparr> []"
    by (simp add: Let_def)
  with New_zero show ?thesis by simp
qed

text \<open>
  C8, amended. On a balancer just constructed with pool size \<open>N \<ge> 1\<close>, \<open>Start\<close> returns;
  it has filled the pool with \<open>N\<close> slots, each \<open>Down\<close>, with load 0 and the configured
  ceiling, and the notification channel holds exactly one element, the slice of length
  \<open>N\<close> of the addresses \<open>(target, i)\<close> of all \<open>N\<close> slots.
\<close>

theorem Start_publishes_one_snapshot:
  assumes "NewThroughputLoadBalancer m n opts = Done lb" and "n \<noteq> 0"
  shows "let slots = map (\<lambda>i. new_address tgt i m) [0..<unat n];
             snapshot = map Address slots;
             lb' = lb\<lparr>target := tgt, addrs := map Some slots\<rparr>
         in 0 < unat n \<and> length slots = unat n \<and> length snapshot = unat n \<and>
            (\<forall>i<unat n. snapshot ! i = \<lparr>Addr = tgt, Metadata = MetaInt (of_nat i)\<rparr> \<and>
               state (slots ! i) = stateDown \<and> activeRequests (slots ! i) = 0 \<and>
               maxRequests (slots ! i) = m) \<and>
            Start lb tgt =
              Done (lb'\<lparr>notify := \<lparr>chan_cap = unat n, chan_buf = [snapshot]\<rparr>\<rparr>)"
proof -
  have "\<forall>i<unat n. map Address (map (\<lambda>i. new_address tgt i m) [0..<unat n]) ! i =
          \<lparr>Addr = tgt, Metadata = MetaInt (of_nat i)\<rparr> \<and>
          state (map (\<lambda>i. new_address tgt i m) [0..<unat n] ! i) = stateDown \<and>
          activeRequests (map (\<lambda>i. new_address tgt i m) [0..<unat n] ! i) = 0 \<and>
          maxRequests (map (\<lambda>i. new_address tgt i m) [0..<unat n] ! i) = m"
    by (simp add: new_address_def)
  moreover have "Start lb tgt =
       Done (lb\<lparr>target := tgt, addrs := map Some (map (\<lambda>i. new_address tgt i m) [0..<unat n]),
              notify := \<lparr>chan_cap = unat n,
                chan_buf = [map Address (map (\<lambda>i. new_address tgt i m) [0..<unat n])]\<rparr>\<rparr>)"
    using Start_fresh[OF assms(1), of tgt] assms(2) by (simp add: Let_def del: map_map)
  moreover have "0 < unat n"
    using assms(2) by (simp add: unat_gt_0)
  ultimately show ?thesis
    by (simp add: Let_def del: map_map)
qed

lemma New_two:
  "NewThroughputLoadBalancer 2 2 [] =
     Done \<lparr>addrs = [None, None], target = [], notify = \<lparr>chan_cap = 2, chan_buf = []\<rparr>,
           lb_maxRequests = 2, numAddrs = 2, cleanupInterval = time_Minute\<rparr>"
proof -
  have "replicate 2 None = [None, None :: address option]" by (simp add: numeral_2_eq_2)
  then show ?thesis
    by (simp add: NewThroughputLoadBalancer_def word_sless_alt)
qed

theorem Start_publishes_one_snapshot_witness:
  "NewThroughputLoadBalancer 2 2 [] =
     Done \<lparr>addrs = [None, None], target = [], notify = \<lparr>chan_cap = 2, chan_buf = []\<rparr>,
           lb_maxRequests = 2, numAddrs = 2, cleanupInterval = time_Minute\<rparr> \<and>
   (2::go_int) \<noteq> 0 \<and>
   Start \<lparr>addrs = [None, None], target = [], notify = \<lparr>chan_cap = 2, chan_buf = []\<rparr>,
           lb_maxRequests = 2, numAddrs = 2, cleanupInterval = time_Minute\<rparr> ''t'' =
     Done \<lparr>addrs = [Some (new_address ''t'' 0 2), Some (new_address ''t'' 1 2)], target = ''t'',
           notify = \<lparr>chan_cap = 2, chan_buf =
             [[\<lparr>Addr = ''t'', Metadata = MetaInt 0\<rparr>, \<lparr>Addr = ''t'', Metadata = MetaInt 1\<rparr>]]\<rparr>,
           lb_maxRequests = 2, numAddrs = 2, cleanupInterval = time_Minute\<rparr>"
proof -
  have u: "[0..<2] = [0, 1]" by (simp add: upt_rec)
  have nz: "(2::go_int) \<noteq> 0" by simp
  from Start_publishes_one_snapshot [OF New_two nz, of "''t''"]
  have "Start \<lparr>addrs = [None, None], target = [], notify = \<lparr>chan_cap = 2, chan_buf = []\<rparr>,
           lb_maxRequests = 2, numAddrs = 2, cleanupInterval = time_Minute\<rparr> ''t'' =
     Done \<lparr>addrs = [Some (new_address ''t'' 0 2), Some (new_address ''t'' 1 2)], target = ''t'',
           notify = \<lparr>chan_cap = 2, chan_buf =
             [[\<lparr>Addr = ''t'', Metadata = MetaInt 0\<rparr>, \<lparr>Addr = ''t'', Metadata = MetaInt 1\<rparr>]]\<rparr>,
           lb_maxRequests = 2, numAddrs = 2, cleanupInterval = time_Minute\<rparr>"
    by (simp add: Let_def u new_address_def)
  with New_two nz show ?thesis by simp
qed

lemma Up_loop_found:
  "Address a = addr \<Longrightarrow> \<forall>x\<in>set pre. \<exists>b. x = Some b \<and> Address b \<noteq> addr \<Longrightarrow>
   Up_loop (pre @ Some a # post) i addr = Done (Some (i + length pre))"
  by (induction pre arbitrary: i) auto

lemma Up_loop_none:
  "\<forall>x\<in>set as. \<exists>b. x = Some b \<and> Address b \<noteq> addr \<Longrightarrow> Up_loop as i addr = Done None"
  by (induction as arbitrary: i) auto

lemmas up_simps = Up_def on_slot_def goUp_def goDown_def lb_single_def idle_slot_def new_address_def

text \<open>
  C9, as stated, fails: the comparison \<open>a.Address == addr\<close> is on both fields, and the
  \<open>Metadata\<close> of a slot is its index. A caller that supplies only the base address
  (\<open>Metadata\<close> nil) matches no slot: \<open>Up\<close> returns the no-op handle and the slot stays
  \<open>Down\<close>.
\<close>

theorem Up_base_address_counterexample:
  "Addr (Address (new_address ''t'' 0 2)) = ''t'' \<and>
   Up (lb_single 2 (new_address ''t'' 0 2)) \<lparr>Addr = ''t'', Metadata = MetaNil\<rparr> =
     Done (NoOpDown, lb_single 2 (new_address ''t'' 0 2)) \<and>
   state (new_address ''t'' 0 2) = stateDown"
  by (simp add: up_simps)

text \<open>
  C9, amended. On a pool whose slots are all initialised, \<open>Up addr\<close> takes the first
  slot whose \<open>Address\<close> equals \<open>addr\<close> in both \<open>Addr\<close> and \<open>Metadata\<close>, sets it
  \<open>Up\<close> and returns a handle that sets that same slot \<open>Down\<close> again; no other slot
  changes. If no slot has that \<open>Address\<close>, it returns a handle that does nothing and
  the pool is unchanged.
\<close>

theorem Up_marks_first_equal_slot:
  assumes "\<forall>x\<in>set (addrs lb). x \<noteq> None"
  shows "(\<forall>i a. i < length (addrs lb) \<and> addrs lb ! i = Some a \<and> Address a = addr \<and>
            (\<forall>j b. j < i \<and> addrs lb ! j = Some b \<longrightarrow> Address b \<noteq> addr) \<longrightarrow>
            Up lb addr = Done (GoDownOf i, lb\<lparr>addrs := (addrs lb)[i := Some (a\<lparr>state := stateUp\<rparr>)]\<rparr>) \<and>
            call_down (GoDownOf i) (lb\<lparr>addrs := (addrs lb)[i := Some (a\<lparr>state := stateUp\<rparr>)]\<rparr>) =
              Done (lb\<lparr>addrs := (addrs lb)[i := Some (a\<lparr>state := stateDown\<rparr>)]\<rparr>)) \<and>
         ((\<forall>a. Some a \<in> set (addrs lb) \<longrightarrow> Address a \<noteq> addr) \<longrightarrow>
            Up lb addr = Done (NoOpDown, lb) \<and> call_down NoOpDown lb = Done lb)"
proof -
  have found: "Up lb addr = Done (GoDownOf i, lb\<lparr>addrs := (addrs lb)[i := Some (a\<lparr>state := stateUp\<rparr>)]\<rparr>) \<and>
            call_down (GoDownOf i) (lb\<lparr>addrs := (addrs lb)[i := Some (a\<lparr>state := stateUp\<rparr>)]\<rparr>) =
              Done (lb\<lparr>addrs := (addrs lb)[i := Some (a\<lparr>state := stateDown\<rparr>)]\<rparr>)"
    if i: "i < length (addrs lb)" "addrs lb ! i = Some a" and eq: "Address a = addr"
      and first: "\<forall>j b. j < i \<and> addrs lb ! j = Some b \<longrightarrow> Address b \<noteq> addr" for i a
  proof -
    let ?pre = "take i (addrs lb)" and ?post = "drop (Suc i) (addrs lb)"
    have d: "addrs lb = ?pre @ Some a # ?post"
      using i by (metis id_take_nth_drop)
    have len: "length ?pre = i" using i by simp
    have "\<forall>x\<in>set ?pre. \<exists>b. x = Some b \<and> Address b \<noteq> addr"
    proof
      fix x assume "x \<in> set ?pre"
      then obtain j where j: "j < i" "x = addrs lb ! j"
        using i(1) by (auto simp: in_set_conv_nth)
      then have "x \<in> set (addrs lb)" using i(1) by simp
      with assms obtain b where b: "x = Some b" by auto
      then have "addrs lb ! j = Some b" using j(2) by simp
      with first j(1) have "Address b \<noteq> addr" by blast
      with b show "\<exists>b. x = Some b \<and> Address b \<noteq> addr" by blast
    qed
    from Up_loop_found[OF eq this, of ?post 0]
    have l: "Up_loop (addrs lb) 0 addr = Done (Some i)" using d len by simp
    have u: "on_slot i goUp lb = Done (lb\<lparr>addrs := (addrs lb)[i := Some (a\<lparr>state := stateUp\<rparr>)]\<rparr>)"
      using i by (simp add: on_slot_def goUp_def)
    have c: "on_slot i goDown (lb\<lparr>addrs := (addrs lb)[i := Some (a\<lparr>state := stateUp\<rparr>)]\<rparr>) =
               Done (lb\<lparr>addrs := (addrs lb)[i := Some (a\<lparr>state := stateDown\<rparr>)]\<rparr>)"
      using i by (simp add: on_slot_def goDown_def)
    show ?thesis using l u c by (simp add: Up_def)
  qed
  have none: "Up lb addr = Done (NoOpDown, lb) \<and> call_down NoOpDown lb = Done lb"
    if "\<forall>a. Some a \<in> set (addrs lb) \<longrightarrow> Address a \<noteq> addr"
  proof -
    have "\<forall>x\<in>set (addrs lb). \<exists>b. x = Some b \<and> Address b \<noteq> addr"
      using assms that by auto
    from Up_loop_none[OF this, of 0] show ?thesis by (simp add: Up_def)
  qed
  from found none show ?thesis by blast
qed

theorem Up_marks_first_equal_slot_witness:
  "list_all (\<lambda>x. x \<noteq> None) (addrs (lb_single 2 (new_address ''t'' 0 2))) \<and>
   Up (lb_single 2 (new_address ''t'' 0 2)) \<lparr>Addr = ''t'', Metadata = MetaInt 0\<rparr> =
     Done (GoDownOf 0, (lb_single 2 (new_address ''t'' 0 2))\<lparr>addrs := [Some (idle_slot 2)]\<rparr>) \<and>
   call_down (GoDownOf 0) ((lb_single 2 (new_address ''t'' 0 2))\<lparr>addrs := [Some (idle_slot 2)]\<rparr>) =
     Done (lb_single 2 (new_address ''t'' 0 2)) \<and>
   Up (lb_single 2 (new_address ''t'' 0 2)) \<lparr>Addr = ''u'', Metadata = MetaInt 0\<rparr> =
     Done (NoOpDown, lb_single 2 (new_address ''t'' 0 2))"
proof -
  have h: "\<forall>x\<in>set (addrs (lb_single 2 (new_address ''t'' 0 2))). x \<noteq> None"
    by (simp add: lb_single_def)
  from Up_marks_first_equal_slot [OF h, of "\<lparr>Addr = ''t'', Metadata = MetaInt 0\<rparr>"]
  have a: "Up (lb_single 2 (new_address ''t'' 0 2)) \<lparr>Addr = ''t'', Metadata = MetaInt 0\<rparr> =
     Done (GoDownOf 0, (lb_single 2 (new_address ''t'' 0 2))\<lparr>addrs := [Some (idle_slot 2)]\<rparr>) \<and>
   call_down (GoDownOf 0) ((lb_single 2 (new_address ''t'' 0 2))\<lparr>addrs := [Some (idle_slot 2)]\<rparr>) =
     Done (lb_single 2 (new_address ''t'' 0 2))"
    by (simp add: lb_single_def idle_slot_def new_address_def)
  from Up_marks_first_equal_slot [OF h, of "\<lparr>Addr = ''u'', Metadata = MetaInt 0\<rparr>"]
  have b: "Up (lb_single 2 (new_address ''t'' 0 2)) \<lparr>Addr = ''u'', Metadata = MetaInt 0\<rparr> =
     Done (NoOpDown, lb_single 2 (new_address ''t'' 0 2))"
    by (simp add: lb_single_def idle_slot_def new_address_def)
  from h a b show ?thesis by (simp add: list_all_iff)
qed

text \<open>
  The one-slot pools used above are reached through the interface: construction with
  pool size 1, \<open>Start\<close> for target \<open>t\<close>, then \<open>Up\<close> with the published address.
\<close>

lemma lb_single_reachable:
  "NewThroughputLoadBalancer m 1 [] =
     Done \<lparr>addrs = [None], target = [], notify = \<lparr>chan_cap = 1, chan_buf = []\<rparr>,
           lb_maxRequests = m, numAddrs = 1, cleanupInterval = time_Minute\<rparr> \<and>
   Start \<lparr>addrs = [None], target = [], notify = \<lparr>chan_cap = 1, chan_buf = []\<rparr>,
           lb_maxRequests = m, numAddrs = 1, cleanupInterval = time_Minute\<rparr> ''t'' =
     Done (lb_single m (new_address ''t'' 0 m)) \<and>
   Up (lb_single m (new_address ''t'' 0 m)) \<lparr>Addr = ''t'', Metadata = MetaInt 0\<rparr> =
     Done (GoDownOf 0, lb_single m (idle_slot m))"
proof -
  have n: "NewThroughputLoadBalancer m 1 [] =
     Done \<lparr>addrs = [None], target = [], notify = \<lparr>chan_cap = 1, chan_buf = []\<rparr>,
           lb_maxRequests = m, numAddrs = 1, cleanupInterval = time_Minute\<rparr>"
    by (simp add: NewThroughputLoadBalancer_def word_sless_alt)
  from Start_fresh[OF n, of "''t''"]
  have s: "Start \<lparr>addrs = [None], target = [], notify = \<lparr>chan_cap = 1, chan_buf = []\<rparr>,
           lb_maxRequests = m, numAddrs = 1, cleanupInterval = time_Minute\<rparr> ''t'' =
     Done (lb_single m (new_address ''t'' 0 m))"
    by (simp add: Let_def lb_single_def)
  have u: "Up (lb_single m (new_address ''t'' 0 m)) \<lparr>Addr = ''t'', Metadata = MetaInt 0\<rparr> =
     Done (GoDownOf 0, lb_single m (idle_slot m))"
    by (simp add: up_simps)
  from n s u show ?thesis by blast
qed

end
